theory Spec2Isabelle
  imports Complex_Main "HOL-Library.Multiset"
begin

section \<open>Python values and exceptions\<close>

text \<open>
  The module \<^verbatim>\<open>pyeia/api.py\<close> is Python 2 code (\<^verbatim>\<open>from Queue import Queue\<close>).
  Its integers are unbounded and are modelled by \<open>int\<close>. Exceptions are values of the
  type \<open>error\<close>; a function that may raise returns \<open>error + 'a\<close>, with \<open>Inl\<close> the
  exception raised.
\<close>

datatype error =
    ValueError
  | UnboundLocalError
  | AssertionError
  | NameError
  | TypeError
  | KeyError
  | RequestException

section \<open>\<^verbatim>\<open>chunk\<close>: count-bounded chunking\<close>

text \<open>
  \<^verbatim>\<open>
  def chunk(l, n):
      for i in range(0, len(l), n):
          yield l[i:i + n]
  \<close>
  \<open>py_range\<close> is \<^verbatim>\<open>range(start, stop, step)\<close>: a zero step raises \<^verbatim>\<open>ValueError\<close>, a
  positive step counts up while below \<open>stop\<close>, a negative one counts down while above it.
  \<open>slice l i j\<close> is \<^verbatim>\<open>l[i:j]\<close> with Python's clamping of both indices.
\<close>

function range_up :: "int \<Rightarrow> int \<Rightarrow> int \<Rightarrow> int list" where
  "range_up i stop step =
     (if 0 < step \<and> i < stop then i # range_up (i + step) stop step else [])"
  by pat_completeness auto
termination
  by (relation "measure (\<lambda>(i, stop, step). nat (stop - i))") auto

function range_down :: "int \<Rightarrow> int \<Rightarrow> int \<Rightarrow> int list" where
  "range_down i stop step =
     (if step < 0 \<and> stop < i then i # range_down (i + step) stop step else [])"
  by pat_completeness auto
termination
  by (relation "measure (\<lambda>(i, stop, step). nat (i - stop))") auto

declare range_up.simps [simp del] range_down.simps [simp del]

definition py_range :: "int \<Rightarrow> int \<Rightarrow> int \<Rightarrow> error + int list" where
  "py_range start stop step =
     (if step = 0 then Inl ValueError
      else if 0 < step then Inr (range_up start stop step)
      else Inr (range_down start stop step))"

definition slice :: "'a list \<Rightarrow> int \<Rightarrow> int \<Rightarrow> 'a list" where
  "slice l i j =
     (let n = int (length l);
          lo = (if i < 0 then max (n + i) 0 else min i n);
          hi = (if j < 0 then max (n + j) 0 else min j n)
      in take (nat (hi - lo)) (drop (nat lo) l))"

definition chunk :: "'a list \<Rightarrow> int \<Rightarrow> error + 'a list list" where
  "chunk l n =
     (case py_range 0 (int (length l)) n of
        Inl e \<Rightarrow> Inl e
      | Inr starts \<Rightarrow> Inr (map (\<lambda>i. slice l i (i + n)) starts))"

text \<open>\<^verbatim>\<open>sep.join(xs)\<close> on a sequence of strings.\<close>

fun py_join :: "string \<Rightarrow> string list \<Rightarrow> string" where
  "py_join sep [] = []"
| "py_join sep [x] = x"
| "py_join sep (x # y # ys) = x @ sep @ py_join sep (y # ys)"

text \<open>
  The jobs that \<^verbatim>\<open>Series.query\<close> (and \<^verbatim>\<open>SeriesCategory.query\<close>) puts on the queue, in
  the order of the \<^verbatim>\<open>queue.put\<close> calls:
  \<^verbatim>\<open>
  for i, C in enumerate(chunk(series_ids, 100)):
      self.queue.put(';'.join(C))
  \<close>
\<close>

definition Series_jobs :: "string list \<Rightarrow> error + string list" where
  "Series_jobs series_ids =
     (case chunk series_ids 100 of
        Inl e \<Rightarrow> Inl e
      | Inr cs \<Rightarrow> Inr (map (py_join '';'') cs))"

section \<open>Properties of \<^verbatim>\<open>chunk\<close>\<close>

lemma slice_nonneg:
  "0 \<le> i \<Longrightarrow> 0 < n \<Longrightarrow> slice l i (i + n) = take (nat n) (drop (nat i) l)"
  unfolding slice_def Let_def by (auto simp: min_def)

lemma div_step: "0 < (n::int) \<Longrightarrow> (x + n) div n = x div n + 1"
  by simp

lemma range_up_lower: "k \<in> set (range_up i stop n) \<Longrightarrow> i \<le> k"
proof (induction i stop n rule: range_up.induct)
  case (1 i stop step)
  from 1(2) show ?case
    by (subst (asm) range_up.simps) (use 1(1) in \<open>auto split: if_splits\<close>)
qed

lemma length_range_up:
  "0 < n \<Longrightarrow> length (range_up i stop n) = nat (- ((i - stop) div n))"
proof (induction i stop n rule: range_up.induct)
  case (1 i stop step)
  show ?case
  proof (cases "i < stop")
    case True
    have a: "(i + step - stop) div step = (i - stop) div step + 1"
      using 1(2) div_step [of step "i - stop"] by (simp add: algebra_simps)
    have "\<not> 0 < (i + step - stop) div step"
      using True 1(2) by (simp add: pos_imp_zdiv_pos_iff)
    then have b: "(i + step - stop) div step \<le> 0" by simp
    have "length (range_up i stop step) = Suc (length (range_up (i + step) stop step))"
      using True 1(2) by (subst range_up.simps) simp
    also have "\<dots> = Suc (nat (- ((i + step - stop) div step)))"
      using 1 True by simp
    also have "\<dots> = nat (- ((i - stop) div step))"
      using a b by simp
    finally show ?thesis .
  next
    case False
    then have "0 \<le> (i - stop) div step"
      using 1(2) by (simp add: pos_imp_zdiv_nonneg_iff)
    with False show ?thesis by (subst range_up.simps) simp
  qed
qed

lemma concat_chunks:
  "0 < n \<Longrightarrow> 0 \<le> i \<Longrightarrow>
   concat (map (\<lambda>i. slice l i (i + n)) (range_up i (int (length l)) n)) = drop (nat i) l"
proof (induction i "int (length l)" n rule: range_up.induct)
  case (1 i step)
  show ?case
  proof (cases "i < int (length l)")
    case True
    have "take (nat step) (drop (nat i) l) @ drop (nat (i + step)) l = drop (nat i) l"
      using 1(2,3) append_take_drop_id [of "nat step" "drop (nat i) l"]
      by (simp add: nat_add_distrib add.commute)
    with 1 True show ?thesis
      by (subst range_up.simps) (simp add: slice_nonneg)
  next
    case False
    with 1 show ?thesis by (subst range_up.simps) simp
  qed
qed

lemma ceil_len: "\<lceil>real (length l) / real_of_int n\<rceil> = - ((- int (length l)) div n)"
  using ceiling_divide_eq_div [of "int (length l)" n] by simp

lemma chunk_pos:
  "0 < n \<Longrightarrow> chunk l n = Inr (map (\<lambda>i. slice l i (i + n)) (range_up 0 (int (length l)) n))"
  by (simp add: chunk_def py_range_def)

lemma chunk_sizes:
  assumes "0 < n" and "c \<in> set (map (\<lambda>i. slice l i (i + n)) (range_up 0 (int (length l)) n))"
  shows "length c \<le> nat n"
proof -
  from assms(2) obtain k where k: "k \<in> set (range_up 0 (int (length l)) n)"
    and c: "c = slice l k (k + n)" by auto
  from k have "0 \<le> k" by (rule range_up_lower)
  with assms(1) c show ?thesis by (simp add: slice_nonneg)
qed

lemma range_up_250: "range_up 0 250 100 = [0, 100, 200]"
  by (simp add: range_up.simps)

lemma slice_len_250:
  "length l = 250 \<Longrightarrow> map length (map (\<lambda>i. slice l i (i + 100)) [0, 100, 200]) = [100, 100, 50]"
  by (simp add: slice_def)

text \<open>
  C6. For a positive chunk size \<open>n\<close>, \<^verbatim>\<open>chunk(l, n)\<close> yields
  \<open>\<lceil>length l / n\<rceil>\<close> chunks, each of at most \<open>n\<close> elements, whose concatenation in order
  is \<open>l\<close>; \<^verbatim>\<open>Series.query\<close> puts one job per chunk of size 100 on the queue; and a list
  of 250 ids chunked by 100 gives exactly three chunks, of sizes 100, 100 and 50.
\<close>

theorem chunk_count_bounded:
  assumes "0 < n"
  shows "\<exists>cs. chunk l n = Inr cs
           \<and> length cs = nat \<lceil>real (length l) / real_of_int n\<rceil>
           \<and> (\<forall>c \<in> set cs. length c \<le> nat n)
           \<and> concat cs = l
           \<and> (n = 100 \<longrightarrow> Series_jobs l = Inr (map (py_join '';'') cs))
           \<and> (n = 100 \<and> length l = 250 \<longrightarrow> map length cs = [100, 100, 50])"
proof -
  let ?cs = "map (\<lambda>i. slice l i (i + n)) (range_up 0 (int (length l)) n)"
  have 1: "chunk l n = Inr ?cs" using assms by (rule chunk_pos)
  have 2: "length ?cs = nat \<lceil>real (length l) / real_of_int n\<rceil>"
    using assms by (simp add: length_range_up ceil_len)
  have 3: "\<forall>c \<in> set ?cs. length c \<le> nat n"
    using assms chunk_sizes by blast
  have 4: "concat ?cs = l"
    using concat_chunks [OF assms, of 0 l] by simp
  have 5: "n = 100 \<longrightarrow> Series_jobs l = Inr (map (py_join '';'') ?cs)"
    by (simp add: Series_jobs_def chunk_pos)
  have 6: "n = 100 \<and> length l = 250 \<longrightarrow> map length ?cs = [100, 100, 50]"
    using slice_len_250 [of l] by (simp add: range_up_250)
  show ?thesis
    by (rule exI [of _ ?cs]) (intro conjI 1 2 3 4 5 6)
qed

theorem chunk_count_bounded_witness:
  "chunk [''a'', ''b'', ''c'', ''d'', ''e''] 2 = Inr [[''a'', ''b''], [''c'', ''d''], [''e'']]
   \<and> length [[''a'', ''b''], [''c'', ''d''], [''e'']]
       = nat \<lceil>real (length [''a'', ''b'', ''c'', ''d'', ''e'']) / real_of_int 2\<rceil>
   \<and> concat [[''a'', ''b''], [''c'', ''d''], [''e'']] = [''a'', ''b'', ''c'', ''d'', ''e'']"
proof -
  have h: "(0::int) < 2" by simp
  have e: "chunk [''a'', ''b'', ''c'', ''d'', ''e''] 2 = Inr [[''a'', ''b''], [''c'', ''d''], [''e'']]"
    by (simp add: chunk_def py_range_def range_up.simps slice_def)
  from chunk_count_bounded [OF h, of "[''a'', ''b'', ''c'', ''d'', ''e'']"]
  obtain cs where cs: "chunk [''a'', ''b'', ''c'', ''d'', ''e''] 2 = Inr cs"
    and len: "length cs = nat \<lceil>real (length [''a'', ''b'', ''c'', ''d'', ''e'']) / real_of_int 2\<rceil>"
    and cat: "concat cs = [''a'', ''b'', ''c'', ''d'', ''e'']"
    by blast
  from cs e have "cs = [[''a'', ''b''], [''c'', ''d''], [''e'']]" by simp
  with e len cat show ?thesis by simp
qed

end
